theory Spec2Isabelle
  imports Complex_Main
begin

section \<open>JavaScript numbers\<close>

text \<open>
  The tuner of \<^verbatim>\<open>src/assets/js/script.js\<close> computes with JavaScript numbers: the
  finite numbers and the three non-finite values. The sign of zero is not tracked: the
  zeros that the script divides by are positive (a length, a sum, a product with 440),
  and its comparisons and \<open>Math.log\<close> treat the two zeros alike.

  The operations \<open>js_add\<close> to \<open>js_div\<close> of this section are the exact ones, with the
  propagation of \<open>NaN\<close> and the comparisons that are false on \<open>NaN\<close>. The autocorrelator
  is modelled with them: its theorems say which return is taken and what is returned
  there, given the outcome of the comparisons it makes on a block. The samples of a block
  and the sample rate are finite, so they are plain reals. From the estimate on, in
  \<open>updatePitch\<close> and the PitchMapper, every operation is rounded to binary64 (section
  Binary64 arithmetic).
\<close>

datatype jsnum = Num real | NaN | PosInf | NegInf

fun js_neg :: "jsnum \<Rightarrow> jsnum" where
  "js_neg (Num a) = Num (- a)"
| "js_neg NaN = NaN"
| "js_neg PosInf = NegInf"
| "js_neg NegInf = PosInf"

fun js_add :: "jsnum \<Rightarrow> jsnum \<Rightarrow> jsnum" where
  "js_add (Num a) (Num b) = Num (a + b)"
| "js_add NaN _ = NaN"
| "js_add _ NaN = NaN"
| "js_add PosInf NegInf = NaN"
| "js_add NegInf PosInf = NaN"
| "js_add PosInf _ = PosInf"
| "js_add NegInf _ = NegInf"
| "js_add (Num a) b = b"

definition js_sub :: "jsnum \<Rightarrow> jsnum \<Rightarrow> jsnum" where
  "js_sub a b = js_add a (js_neg b)"

fun js_abs :: "jsnum \<Rightarrow> jsnum" where
  "js_abs (Num a) = Num \<bar>a\<bar>"
| "js_abs NaN = NaN"
| "js_abs PosInf = PosInf"
| "js_abs NegInf = PosInf"

fun js_sqrt :: "jsnum \<Rightarrow> jsnum" where
  "js_sqrt (Num a) = (if a < 0 then NaN else Num (sqrt a))"
| "js_sqrt NaN = NaN"
| "js_sqrt PosInf = PosInf"
| "js_sqrt NegInf = NaN"

fun js_div :: "jsnum \<Rightarrow> jsnum \<Rightarrow> jsnum" where
  "js_div (Num a) (Num b) =
     (if b \<noteq> 0 then Num (a / b)
      else if a = 0 then NaN
      else if 0 < a then PosInf else NegInf)"
| "js_div NaN _ = NaN"
| "js_div _ NaN = NaN"
| "js_div (Num a) _ = Num 0"
| "js_div PosInf (Num b) = (if 0 \<le> b then PosInf else NegInf)"
| "js_div NegInf (Num b) = (if 0 \<le> b then NegInf else PosInf)"
| "js_div _ _ = NaN"

fun js_lt :: "jsnum \<Rightarrow> jsnum \<Rightarrow> bool" where
  "js_lt (Num a) (Num b) = (a < b)"
| "js_lt (Num a) PosInf = True"
| "js_lt NegInf (Num b) = True"
| "js_lt NegInf PosInf = True"
| "js_lt _ _ = False"

definition js_gt :: "jsnum \<Rightarrow> jsnum \<Rightarrow> bool" where
  "js_gt a b = js_lt b a"

definition js_ge :: "jsnum \<Rightarrow> jsnum \<Rightarrow> bool" where
  "js_ge a b = (js_lt b a \<or> (a = b \<and> a \<noteq> NaN))"

section \<open>Autocorrelator\<close>

text \<open>
  \<open>buffer[k]\<close> on a typed array is \<open>undefined\<close> outside \<open>0 \<le> k < buffer.length\<close>, and
  \<open>undefined\<close> in arithmetic is \<open>NaN\<close>. The source reads the buffer only inside
  arithmetic, so the read returns \<open>NaN\<close> there.
\<close>

definition buf_at :: "real list \<Rightarrow> int \<Rightarrow> jsnum" where
  "buf_at buffer k =
     (if 0 \<le> k \<and> k < int (length buffer) then Num (buffer ! nat k) else NaN)"

text \<open>
  The inner loops of \<open>autoCorrelate\<close> and \<open>correlationShift\<close>:
  \<^verbatim>\<open>for (let i = 0; i < n; i++) acc += Math.abs(buffer[i] - buffer[i + d]);\<close>
\<close>

definition abs_diff_sum :: "real list \<Rightarrow> nat \<Rightarrow> int \<Rightarrow> jsnum" where
  "abs_diff_sum buffer n d =
     foldl (\<lambda>acc i. js_add acc (js_abs (js_sub (buf_at buffer (int i)) (buf_at buffer (int i + d)))))
       (Num 0) [0..<n]"

subsection \<open>correlationShift\<close>

text \<open>
  The variables of \<open>correlationShift\<close>; \<open>cc\<close> and \<open>cc_prev\<close> are declared before the
  loop and start \<open>undefined\<close>.
\<close>

record shift_vars =
  best_offset :: int
  best_correlation :: jsnum
  cc :: jsnum
  cc_prev :: jsnum

definition shift_init :: shift_vars where
  "shift_init = \<lparr>best_offset = - 1, best_correlation = Num 0, cc = NaN, cc_prev = NaN\<rparr>"

function shift_loop :: "real list \<Rightarrow> nat \<Rightarrow> nat \<Rightarrow> nat \<Rightarrow> shift_vars \<Rightarrow> shift_vars" where
  "shift_loop buffer maxSamples offset i v =
     (if i < 16 then
        let c = abs_diff_sum buffer maxSamples (int offset + int i);
            cp = abs_diff_sum buffer maxSamples (int offset + int i - 1);
            v1 = v\<lparr>cc := c, cc_prev := cp\<rparr>;
            v2 = (if i = 0 \<or> js_lt c (best_correlation v1)
                  then v1\<lparr>best_correlation := c, best_offset := int i\<rparr> else v1)
        in if js_gt c cp then v2 else shift_loop buffer maxSamples offset (Suc i) v2
      else v)"
  by pat_completeness auto
termination
  by (relation "measure (\<lambda>(buffer, maxSamples, offset, i, v). 16 - i)") auto

definition correlationShift :: "real list \<Rightarrow> nat \<Rightarrow> nat \<Rightarrow> int" where
  "correlationShift buffer maxSamples offset =
     best_offset (shift_loop buffer maxSamples offset 0 shift_init)"

text \<open>
  What the loop of \<open>correlationShift\<close> is meant to find, stated on the sums themselves.
  Step \<open>i\<close> compares the sum at lag \<open>offset + i\<close> with the sum at the lag before. The
  search stops at step \<open>s\<close>: the first step whose sum exceeds the sum of the lag before,
  or step 15. Its result \<open>r\<close> is the first step up to \<open>s\<close> of the least sum: no step up
  to \<open>s\<close> has a smaller sum, and every earlier step has a larger one (or \<open>NaN\<close>).
\<close>

definition shift_sum :: "real list \<Rightarrow> nat \<Rightarrow> nat \<Rightarrow> nat \<Rightarrow> jsnum" where
  "shift_sum buffer maxSamples offset i = abs_diff_sum buffer maxSamples (int offset + int i)"

definition shift_sum_prev :: "real list \<Rightarrow> nat \<Rightarrow> nat \<Rightarrow> nat \<Rightarrow> jsnum" where
  "shift_sum_prev buffer maxSamples offset i =
     abs_diff_sum buffer maxSamples (int offset + int i - 1)"



subsection \<open>autoCorrelate\<close>

definition MAX_SAMPLES :: "real list \<Rightarrow> nat" where
  "MAX_SAMPLES buffer = length buffer div 2"

text \<open>\<^verbatim>\<open>for (let i = 0; i < SIZE; i++) { const val = buffer[i]; rms += val * val; }\<close>\<close>

definition sum_squares :: "real list \<Rightarrow> real" where
  "sum_squares buffer = foldl (\<lambda>acc val. acc + val * val) 0 buffer"

definition rms :: "real list \<Rightarrow> jsnum" where
  "rms buffer = js_sqrt (js_div (Num (sum_squares buffer)) (Num (real (length buffer))))"

text \<open>The value of \<open>correlation\<close> that the scan computes at lag \<open>offset\<close>.\<close>

definition correlation_at :: "real list \<Rightarrow> nat \<Rightarrow> jsnum" where
  "correlation_at buffer offset =
     js_sub (Num 1)
       (js_div (abs_diff_sum buffer (MAX_SAMPLES buffer) (int offset))
               (Num (real (MAX_SAMPLES buffer))))"

text \<open>
  \<open>autoCorrelate\<close> has four return statements. The model first says which one is taken
  and with which values of the variables, then \<open>exit_value\<close> computes the number
  returned there: \<open>WeakSignal\<close> is the return before the scan, \<open>Refined offset b r\<close> the
  return inside the scan at lag \<open>offset\<close> with \<open>bestOffset = b\<close> and the index \<open>r\<close> of
  \<open>correlationShift\<close>, \<open>Fallback b\<close> the return of \<open>sampleRate / bestOffset\<close> after the
  scan, and \<open>NoPitch\<close> the last return.
\<close>

datatype ac_exit =
    WeakSignal
  | Refined nat int int
  | Fallback int
  | NoPitch

record scan_vars =
  bestOffset :: int
  bestCorrelation :: jsnum
  foundGoodCorrelation :: bool
  lastCorrelation :: jsnum

definition scan_init :: scan_vars where
  "scan_init = \<lparr>bestOffset = - 1, bestCorrelation = Num 0,
                 foundGoodCorrelation = False, lastCorrelation = Num 1\<rparr>"

function scan :: "real list \<Rightarrow> nat \<Rightarrow> scan_vars \<Rightarrow> ac_exit" where
  "scan buffer offset v =
     (if offset < MAX_SAMPLES buffer then
        let correlation = correlation_at buffer offset
        in if js_gt correlation (Num (9 / 10)) \<and> js_gt correlation (lastCorrelation v) then
             scan buffer (Suc offset)
               ((if js_gt correlation (bestCorrelation v)
                 then v\<lparr>foundGoodCorrelation := True,
                        bestCorrelation := correlation, bestOffset := int offset\<rparr>
                 else v\<lparr>foundGoodCorrelation := True\<rparr>)\<lparr>lastCorrelation := correlation\<rparr>)
           else if foundGoodCorrelation v then
             Refined offset (bestOffset v) (correlationShift buffer (MAX_SAMPLES buffer) offset)
           else scan buffer (Suc offset) (v\<lparr>lastCorrelation := correlation\<rparr>)
      else if js_gt (bestCorrelation v) (Num (1 / 100)) then Fallback (bestOffset v)
      else NoPitch)"
  by pat_completeness auto
termination
  by (relation "measure (\<lambda>(buffer, offset, v). MAX_SAMPLES buffer - offset)") auto

definition autoCorrelate_exit :: "real list \<Rightarrow> ac_exit" where
  "autoCorrelate_exit buffer =
     (if js_lt (rms buffer) (Num (1 / 100)) then WeakSignal
      else scan buffer 0 scan_init)"

fun exit_value :: "real \<Rightarrow> ac_exit \<Rightarrow> jsnum" where
  "exit_value sampleRate WeakSignal = Num (- 1)"
| "exit_value sampleRate (Refined offset b r) =
     js_div (Num sampleRate) (Num (real_of_int b + (real_of_int r - 8) / 32))"
| "exit_value sampleRate (Fallback b) = js_div (Num sampleRate) (Num (real_of_int b))"
| "exit_value sampleRate NoPitch = Num (- 1)"

definition autoCorrelate :: "real list \<Rightarrow> real \<Rightarrow> jsnum" where
  "autoCorrelate buffer sampleRate = exit_value sampleRate (autoCorrelate_exit buffer)"

text \<open>
  The acceptance condition of the scan, as a property of the block: the correlation at
  lag \<open>k\<close> exceeds 0.9 and exceeds the correlation at the lag before. The scan compares
  with \<open>lastCorrelation\<close>, which is 1 before lag 0.
\<close>

definition previous_correlation :: "real list \<Rightarrow> nat \<Rightarrow> jsnum" where
  "previous_correlation buffer k = (if k = 0 then Num 1 else correlation_at buffer (k - 1))"

definition rising_good :: "real list \<Rightarrow> nat \<Rightarrow> bool" where
  "rising_good buffer k =
     (js_gt (correlation_at buffer k) (Num (9 / 10)) \<and>
      js_gt (correlation_at buffer k) (previous_correlation buffer k))"

text \<open>
  The variables of the scan after it has accepted lag \<open>k\<close> as the best so far.
\<close>

definition accepted_vars :: "real list \<Rightarrow> nat \<Rightarrow> scan_vars" where
  "accepted_vars buffer k =
     \<lparr>bestOffset = int k, bestCorrelation = correlation_at buffer k,
      foundGoodCorrelation = True, lastCorrelation = correlation_at buffer k\<rparr>"

section \<open>Binary64 arithmetic\<close>

text \<open>
  A JavaScript number is an IEEE 754 binary64 value and every arithmetic operation
  returns the exact result rounded to the nearest such value, ties to the even
  significand. \<open>binary64 x\<close> is that rounding of the real \<open>x\<close>: with \<open>e\<close> the exponent
  of \<open>x\<close> (\<open>2^e \<le> |x| < 2^(e+1)\<close>, and \<open>-1022\<close> in the subnormal range) the candidates
  are the multiples of \<open>2^(e-52)\<close>, and a result of magnitude \<open>2^1024\<close> or more is an
  infinity. \<open>norm_exp\<close> finds the exponent by halving or doubling; a number below
  \<open>2^-1022\<close> does not reach it and one that exhausts its 1100 steps is above \<open>2^1100\<close> and
  rounds to an infinity with any smaller exponent.
\<close>

definition two_to :: "int \<Rightarrow> real" where
  "two_to k = (if 0 \<le> k then 2 ^ nat k else 1 / 2 ^ nat (- k))"

definition round_half_even :: "real \<Rightarrow> int" where
  "round_half_even y =
     (let f = \<lfloor>y\<rfloor>; d = y - real_of_int f
      in if d < 1 / 2 then f
         else if 1 / 2 < d then f + 1
         else if even f then f else f + 1)"

fun norm_exp :: "nat \<Rightarrow> real \<Rightarrow> int \<Rightarrow> int" where
  "norm_exp 0 a e = e"
| "norm_exp (Suc n) a e =
     (if 2 \<le> a then norm_exp n (a / 2) (e + 1)
      else if a < 1 then norm_exp n (a * 2) (e - 1)
      else e)"

definition binary64 :: "real \<Rightarrow> jsnum" where
  "binary64 x =
     (let a = \<bar>x\<bar>;
          e = (if a < two_to (- 1022) then - 1022 else norm_exp 1100 a 0);
          q = two_to (e - 52);
          r = real_of_int (round_half_even (a / q)) * q
      in if two_to 1024 \<le> r then (if 0 < x then PosInf else NegInf)
         else Num (if 0 < x then r else - r))"

fun f64 :: "jsnum \<Rightarrow> jsnum" where
  "f64 (Num x) = binary64 x"
| "f64 NaN = NaN"
| "f64 PosInf = PosInf"
| "f64 NegInf = NegInf"

fun js_mul :: "jsnum \<Rightarrow> jsnum \<Rightarrow> jsnum" where
  "js_mul (Num a) (Num b) = Num (a * b)"
| "js_mul NaN _ = NaN"
| "js_mul _ NaN = NaN"
| "js_mul (Num a) PosInf = (if a = 0 then NaN else if 0 < a then PosInf else NegInf)"
| "js_mul (Num a) NegInf = (if a = 0 then NaN else if 0 < a then NegInf else PosInf)"
| "js_mul PosInf (Num b) = (if b = 0 then NaN else if 0 < b then PosInf else NegInf)"
| "js_mul NegInf (Num b) = (if b = 0 then NaN else if 0 < b then NegInf else PosInf)"
| "js_mul PosInf PosInf = PosInf"
| "js_mul PosInf NegInf = NegInf"
| "js_mul NegInf PosInf = NegInf"
| "js_mul NegInf NegInf = PosInf"

text \<open>The operators \<open>+\<close>, \<open>-\<close>, \<open>*\<close> and \<open>/\<close> on numbers.\<close>

definition f64_add :: "jsnum \<Rightarrow> jsnum \<Rightarrow> jsnum" where
  "f64_add a b = f64 (js_add a b)"

definition f64_sub :: "jsnum \<Rightarrow> jsnum \<Rightarrow> jsnum" where
  "f64_sub a b = f64 (js_sub a b)"

definition f64_mul :: "jsnum \<Rightarrow> jsnum \<Rightarrow> jsnum" where
  "f64_mul a b = f64 (js_mul a b)"

definition f64_div :: "jsnum \<Rightarrow> jsnum \<Rightarrow> jsnum" where
  "f64_div a b = f64 (js_div a b)"

text \<open>
  The remainder \<open>%\<close> truncates the quotient towards zero, so it has the sign of the
  dividend; it is exact. It is \<open>NaN\<close> for a non-finite dividend and for the divisor 0,
  and the dividend itself for an infinite divisor.
\<close>

definition trunc :: "real \<Rightarrow> int" where
  "trunc x = (if 0 \<le> x then \<lfloor>x\<rfloor> else \<lceil>x\<rceil>)"

fun js_rem :: "jsnum \<Rightarrow> jsnum \<Rightarrow> jsnum" where
  "js_rem (Num a) (Num b) = (if b = 0 then NaN else Num (a - b * real_of_int (trunc (a / b))))"
| "js_rem (Num a) PosInf = Num a"
| "js_rem (Num a) NegInf = Num a"
| "js_rem _ _ = NaN"

text \<open>
  \<open>Math.round\<close> gives the nearest integer, the upper one of two equally near;
  \<open>Math.floor\<close> the integer below; both are exact and keep a non-finite argument.
  \<open>Math.min\<close> and \<open>Math.max\<close> are \<open>NaN\<close> when an argument is.
\<close>

fun Math_round :: "jsnum \<Rightarrow> jsnum" where
  "Math_round (Num x) = Num (real_of_int \<lfloor>x + 1 / 2\<rfloor>)"
| "Math_round v = v"

fun Math_floor :: "jsnum \<Rightarrow> jsnum" where
  "Math_floor (Num x) = Num (real_of_int \<lfloor>x\<rfloor>)"
| "Math_floor v = v"

definition Math_min :: "jsnum \<Rightarrow> jsnum \<Rightarrow> jsnum" where
  "Math_min a b = (if a = NaN \<or> b = NaN then NaN else if js_lt b a then b else a)"

definition Math_max :: "jsnum \<Rightarrow> jsnum \<Rightarrow> jsnum" where
  "Math_max a b = (if a = NaN \<or> b = NaN then NaN else if js_lt a b then b else a)"

text \<open>
  \<open>Math.log\<close> and \<open>Math.pow\<close> return implementation-approximated results: ECMAScript
  fixes them at a few arguments only, and engines differ in the last digit elsewhere. The
  model takes both functions from the engine that runs the script; the tuner calls
  \<open>Math.pow\<close> with the base 2 only, and \<open>Math_pow_2 eng x\<close> stands for \<open>Math.pow(2, x)\<close>.
\<close>

record engine =
  Math_log :: "jsnum \<Rightarrow> jsnum"
  Math_pow_2 :: "jsnum \<Rightarrow> jsnum"

text \<open>
  What the theorems below use of an engine. ECMAScript prescribes \<open>Math.log(1) = +0\<close>,
  \<open>Math.log(0) = -Infinity\<close> and \<open>Math.pow(2, 0) = 1\<close>; that \<open>Math.log(2)\<close> is a positive
  finite number holds of every approximation of \<open>ln 2\<close>.
\<close>

definition conforming :: "engine \<Rightarrow> bool" where
  "conforming eng =
     (Math_log eng (Num 1) = Num 0 \<and>
      Math_log eng (Num 0) = NegInf \<and>
      (case Math_log eng (Num 2) of Num y \<Rightarrow> 0 < y | _ \<Rightarrow> False) \<and>
      Math_pow_2 eng (Num 0) = Num 1)"

text \<open>An engine whose logarithm and power are correctly rounded, for the examples.\<close>

fun rounded_log :: "jsnum \<Rightarrow> jsnum" where
  "rounded_log (Num x) = (if x < 0 then NaN else if x = 0 then NegInf else binary64 (ln x))"
| "rounded_log NaN = NaN"
| "rounded_log PosInf = PosInf"
| "rounded_log NegInf = NaN"

fun rounded_pow_2 :: "jsnum \<Rightarrow> jsnum" where
  "rounded_pow_2 (Num x) = binary64 (2 powr x)"
| "rounded_pow_2 NaN = NaN"
| "rounded_pow_2 PosInf = PosInf"
| "rounded_pow_2 NegInf = Num 0"

definition rounded_engine :: engine where
  "rounded_engine = \<lparr>Math_log = rounded_log, Math_pow_2 = rounded_pow_2\<rparr>"

section \<open>PitchMapper\<close>

text \<open>
  The three functions as written, every operation rounded. The literals 440, 12, 69, 1200
  and 2 are binary64 numbers.
\<close>

definition noteFromPitch :: "engine \<Rightarrow> jsnum \<Rightarrow> jsnum" where
  "noteFromPitch eng frequency =
     (let noteNum = f64_mul (Num 12)
            (f64_div (Math_log eng (f64_div frequency (Num 440))) (Math_log eng (Num 2)))
      in f64_add (Math_round noteNum) (Num 69))"

definition frequencyFromNoteNumber :: "engine \<Rightarrow> jsnum \<Rightarrow> jsnum" where
  "frequencyFromNoteNumber eng note =
     f64_mul (Num 440) (Math_pow_2 eng (f64_div (f64_sub note (Num 69)) (Num 12)))"

definition centsOffFromPitch :: "engine \<Rightarrow> jsnum \<Rightarrow> jsnum \<Rightarrow> jsnum" where
  "centsOffFromPitch eng frequency note =
     Math_floor
       (f64_div
          (f64_mul (Num 1200)
             (Math_log eng (f64_div frequency (frequencyFromNoteNumber eng note))))
          (Math_log eng (Num 2)))"




section \<open>Smoothing and display: updatePitch\<close>

definition noteStrings :: "string list" where
  "noteStrings = [''C'', ''C#'', ''D'', ''D#'', ''E'', ''F'', ''F#'', ''G'', ''G#'', ''A'', ''A#'', ''B'']"

definition frequencyBufferSize :: nat where
  "frequencyBufferSize = 10"

definition noteBufferSize :: nat where
  "noteBufferSize = 5"

text \<open>
  Indexing an array by a number that is not an integer of its range gives \<open>undefined\<close>,
  here \<open>None\<close>.
\<close>

fun array_at :: "'a list \<Rightarrow> jsnum \<Rightarrow> 'a option" where
  "array_at arr (Num x) =
     (if x = real_of_int \<lfloor>x\<rfloor> \<and> 0 \<le> x \<and> x < real (length arr)
      then Some (arr ! nat \<lfloor>x\<rfloor>) else None)"
| "array_at arr _ = None"

text \<open>
  \<open>findMostFrequent\<close> sorts the array it is given in place and pops its last element:
  the caller's array is reordered and loses that element. \<open>Array.prototype.sort\<close> is
  stable (ECMAScript 2019), moves \<open>undefined\<close> elements to the end without comparing
  them, and sorts a copy of the elements that it writes back at the end, so the
  comparator counts occurrences in the array as it was. The model returns the popped
  value (\<open>None\<close> for \<open>undefined\<close>) and the array as it is left.
\<close>

definition occurrences :: "string option list \<Rightarrow> string option \<Rightarrow> nat" where
  "occurrences arr a = length (filter (\<lambda>v. v = a) arr)"

definition js_sort_by_count :: "string option list \<Rightarrow> string option list" where
  "js_sort_by_count arr =
     sort_key (occurrences arr) (filter (\<lambda>v. v \<noteq> None) arr) @ filter (\<lambda>v. v = None) arr"

definition findMostFrequent :: "string option list \<Rightarrow> string option \<times> string option list" where
  "findMostFrequent arr =
     (let sorted = js_sort_by_count arr
      in if sorted = [] then (None, []) else (last sorted, butlast sorted))"

text \<open>\<open>setNeedle\<close> sets the rotation of the needle, \<open>updateFlatSharpIndicator\<close> the label and its colour.\<close>

definition needle_angle :: "jsnum \<Rightarrow> jsnum" where
  "needle_angle cents = Math_max (Num (- 45)) (Math_min (Num 45) (f64_div cents (Num 2)))"

definition flat_sharp :: "jsnum \<Rightarrow> string \<times> string" where
  "flat_sharp cents =
     (if js_lt (js_abs cents) (Num 5) then (''In tune'', ''#4CAF50'')
      else if js_lt cents (Num 0) then (''Flat'', ''#2196F3'')
      else (''Sharp'', ''#FF5722''))"

text \<open>
  The state that \<open>updatePitch\<close> reads and writes: the three module variables and the
  display elements. The text of the frequency display is \<open>Hz f\<close> for
  \<^verbatim>\<open>`${f.toFixed(2)} Hz`\<close> and \<open>NoHz\<close> for \<^verbatim>\<open>'- Hz'\<close>.
\<close>

datatype freq_text = Hz jsnum | NoHz

record tuner =
  frequencyBuffer :: "real list"
  smoothedCents :: jsnum
  noteBuffer :: "string option list"
  noteDisplay :: string
  frequencyDisplay :: freq_text
  flatSharpText :: string
  flatSharpColor :: string
  needle :: jsnum

datatype js_error = TypeError

text \<open>\<open>ac !== -1 && isFinite(ac) && ac > 0\<close>\<close>

fun valid_estimate :: "jsnum \<Rightarrow> bool" where
  "valid_estimate (Num f) = (f \<noteq> - 1 \<and> 0 < f)"
| "valid_estimate _ = False"

fun the_num :: "jsnum \<Rightarrow> real" where
  "the_num (Num f) = f"
| "the_num _ = 0"

text \<open>
  \<open>arr.reduce((a, b) => a + b)\<close> without an initial value throws on an empty array; on
  the others it adds the elements from the left, rounding each sum.
\<close>

fun reduce_add :: "real list \<Rightarrow> js_error + jsnum" where
  "reduce_add [] = Inl TypeError"
| "reduce_add (x # xs) = Inr (foldl (\<lambda>a b. f64_add a (Num b)) (Num x) xs)"

text \<open>
  \<^verbatim>\<open>frequencyBuffer.reduce((a, b) => a + b) / frequencyBuffer.length\<close>
\<close>

definition smoothedFrequency_of :: "real list \<Rightarrow> js_error + jsnum" where
  "smoothedFrequency_of fb =
     (case reduce_add fb of
        Inl e \<Rightarrow> Inl e
      | Inr summed \<Rightarrow> Inr (f64_div summed (Num (real (length fb)))))"

text \<open>\<open>push\<close> followed by \<open>shift\<close> when the array is longer than its capacity.\<close>

definition push_bounded :: "nat \<Rightarrow> 'a list \<Rightarrow> 'a \<Rightarrow> 'a list" where
  "push_bounded cap arr x =
     (let arr1 = arr @ [x] in if cap < length arr1 then tl arr1 else arr1)"

text \<open>
  The body of \<open>updatePitch\<close> from the test of \<open>ac\<close> on; only a valid \<open>ac\<close> is pushed, so
  the frequency buffer holds finite numbers. The literals 0.8 and 0.2 are the binary64
  numbers nearest to 8/10 and 2/10.
\<close>

definition updatePitch_ac :: "engine \<Rightarrow> jsnum \<Rightarrow> tuner \<Rightarrow> js_error + tuner" where
  "updatePitch_ac eng ac st =
     (if valid_estimate ac then
        let fb = push_bounded frequencyBufferSize (frequencyBuffer st) (the_num ac)
        in case smoothedFrequency_of fb of
             Inl e \<Rightarrow> Inl e
           | Inr smoothedFrequency \<Rightarrow>
               let note = noteFromPitch eng smoothedFrequency;
                   noteName = array_at noteStrings (js_rem note (Num 12));
                   cents = centsOffFromPitch eng smoothedFrequency note;
                   sc = f64_add (f64_mul (smoothedCents st) (binary64 (8 / 10)))
                                (f64_mul cents (binary64 (2 / 10)));
                   nb = push_bounded noteBufferSize (noteBuffer st) noteName;
                   (mostFrequentNote, nb') = findMostFrequent nb
               in Inr (st\<lparr>frequencyBuffer := fb,
                          smoothedCents := sc,
                          frequencyDisplay := Hz smoothedFrequency,
                          noteBuffer := nb',
                          noteDisplay := (case mostFrequentNote of
                                            None \<Rightarrow> noteDisplay st
                                          | Some s \<Rightarrow> if s = [] then noteDisplay st else s),
                          needle := needle_angle sc,
                          flatSharpText := fst (flat_sharp sc),
                          flatSharpColor := snd (flat_sharp sc)\<rparr>)
      else
        Inr (st\<lparr>noteDisplay := ''-'',
                frequencyDisplay := NoHz,
                flatSharpText := [],
                needle := needle_angle (Num 0),
                frequencyBuffer := [],
                noteBuffer := []\<rparr>))"

definition updatePitch :: "engine \<Rightarrow> real list \<Rightarrow> real \<Rightarrow> tuner \<Rightarrow> js_error + tuner" where
  "updatePitch eng buffer sampleRate st =
     updatePitch_ac eng (autoCorrelate buffer sampleRate) st"

text \<open>Successive cycles; an exception ends the sequence, since the next frame is not requested.\<close>

fun cycles :: "engine \<Rightarrow> jsnum list \<Rightarrow> tuner \<Rightarrow> js_error + tuner" where
  "cycles eng [] st = Inr st"
| "cycles eng (ac # acs) st =
     (case updatePitch_ac eng ac st of Inl e \<Rightarrow> Inl e | Inr st' \<Rightarrow> cycles eng acs st')"

section \<open>Sample blocks and states used as examples\<close>






text \<open>
  A rectangular pulse in a block of \<open>2 * m\<close> samples: the samples 1 to \<open>m - 3\<close> are 0.1,
  the others 0. \<open>pulse_block 1024\<close> has the 2048 samples that \<open>updatePitch\<close> passes
  (\<open>analyser.fftSize = 2048\<close>).
\<close>

definition pulse_block :: "nat \<Rightarrow> real list" where
  "pulse_block m = map (\<lambda>j. if 1 \<le> j \<and> j \<le> m - 3 then 1 / 10 else 0) [0..<2 * m]"

text \<open>The tuner as \<open>stopListening\<close> leaves it, and a tuner in the middle of a session.\<close>

definition idle_tuner :: tuner where
  "idle_tuner = \<lparr>frequencyBuffer = [], smoothedCents = Num 0, noteBuffer = [],
     noteDisplay = ''-'', frequencyDisplay = NoHz, flatSharpText = [], flatSharpColor = [],
     needle = Num 0\<rparr>"

definition busy_tuner :: tuner where
  "busy_tuner = \<lparr>frequencyBuffer = [440, 441], smoothedCents = Num 30,
     noteBuffer = [Some ''A''], noteDisplay = ''A'', frequencyDisplay = Hz (Num (881 / 2)),
     flatSharpText = ''Sharp'', flatSharpColor = ''#FF5722'', needle = Num 15\<rparr>"

declare scan.simps [simp del]
declare shift_loop.simps [simp del]

section \<open>JavaScript comparisons\<close>

lemma js_gt_Num_mono: "js_gt a (Num x) \<Longrightarrow> y \<le> x \<Longrightarrow> js_gt a (Num y)"
  by (cases a) (auto simp: js_gt_def)


lemma js_ge_not_lt: "js_ge a b \<Longrightarrow> \<not> js_lt a b"
  by (cases a; cases b) (auto simp: js_ge_def)

lemma js_ge_Num: "js_ge (Num s) (Num c) = (c \<le> s)"
  by (auto simp: js_ge_def)

section \<open>The noise floor\<close>

lemma sqrt_hundredth: "sqrt (1 / 10000) = 1 / 100"
proof -
  have "sqrt ((1 / 100)\<^sup>2) = 1 / 100" by (simp only: real_sqrt_abs)
  then show ?thesis by (simp add: power2_eq_square)
qed

lemma foldl_squares_nonneg: "0 \<le> a \<Longrightarrow> 0 \<le> foldl (\<lambda>acc val. acc + val * val) a (buffer :: real list)"
  by (induction buffer arbitrary: a) auto

lemma sum_squares_nonneg: "0 \<le> sum_squares buffer"
  by (simp add: sum_squares_def foldl_squares_nonneg)



lemma rms_Num:
  "buffer \<noteq> [] \<Longrightarrow> rms buffer = Num (sqrt (sum_squares buffer / real (length buffer)))"
  using sum_squares_nonneg[of buffer] by (simp add: rms_def not_less)

lemma rms_ge_iff:
  assumes ne: "buffer \<noteq> []"
  shows "js_ge (rms buffer) (Num (1 / 100)) = (1 / 10000 \<le> sum_squares buffer / real (length buffer))"
proof -
  have "(1 / 100 \<le> sqrt x) = (1 / 10000 \<le> x)" for x :: real
    using real_sqrt_le_iff[of "1 / 10000" x] by (simp only: sqrt_hundredth)
  then show ?thesis by (simp only: rms_Num[OF ne] js_ge_Num)
qed




lemma strong_exit:
  "js_ge (rms buffer) (Num (1 / 100)) \<Longrightarrow> autoCorrelate_exit buffer = scan buffer 0 scan_init"
  by (simp add: autoCorrelate_exit_def js_ge_not_lt)





section \<open>Binary64 values\<close>

lemma norm_exp_numeral:
  "norm_exp (numeral k) a e =
     (if 2 \<le> a then norm_exp (pred_numeral k) (a / 2) (e + 1)
      else if a < 1 then norm_exp (pred_numeral k) (a * 2) (e - 1)
      else e)"
  by (simp add: numeral_eq_Suc)

lemmas binary64_eval = norm_exp_numeral two_to_def round_half_even_def

lemma binary64_0: "binary64 0 = Num 0"
  unfolding binary64_def Let_def by (simp add: binary64_eval)

lemma binary64_1: "binary64 1 = Num 1"
  unfolding binary64_def Let_def by (simp add: binary64_eval)



lemma binary64_69: "binary64 69 = Num 69"
  unfolding binary64_def Let_def by (simp add: binary64_eval)


lemma binary64_440: "binary64 440 = Num 440"
  unfolding binary64_def Let_def by (simp add: binary64_eval)



text \<open>A number between 1/2 and 1 rounds to a positive number.\<close>

lemma binary64_half_one:
  assumes "1 / 2 \<le> x" "x < 1"
  shows "\<exists>y. binary64 x = Num y \<and> 0 < y"
proof -
  have e: "norm_exp 1100 x 0 = - 1"
    using assms by (simp add: norm_exp_numeral)
  have t: "\<not> x < two_to (- 1022)"
  proof -
    have "two_to (- 1022) \<le> 1 / 2" by (simp add: two_to_def)
    then show ?thesis using assms by linarith
  qed
  let ?q = "two_to (- 1 - 52)"
  let ?m = "round_half_even (x / ?q)"
  have q: "?q = 1 / 2 ^ 53" by (simp add: two_to_def)
  have fl: "\<lfloor>x / ?q\<rfloor> \<le> ?m \<and> ?m \<le> \<lfloor>x / ?q\<rfloor> + 1"
    by (simp add: round_half_even_def Let_def)
  have xq: "x / ?q = x * 2 ^ 53" by (simp only: q) simp
  have lo: "2 ^ 52 \<le> x / ?q" using assms by (simp only: xq) simp
  have hi: "x / ?q < 2 ^ 53" using assms by (simp only: xq) simp
  have "(2 ^ 52 :: int) \<le> \<lfloor>x / ?q\<rfloor>" using lo by (simp add: le_floor_iff)
  then have m1: "2 ^ 52 \<le> ?m" using fl by linarith
  have "\<lfloor>x / ?q\<rfloor> < 2 ^ 53" using hi by (simp add: floor_less_iff)
  then have m2: "?m \<le> 2 ^ 53" using fl by linarith
  have qp: "0 < ?q" by (simp only: q) simp
  have "0 < ?m" using m1 by simp
  then have r1: "0 < real_of_int ?m * ?q" using qp by simp
  have "real_of_int ?m \<le> 2 ^ 53"
    using m2 by (metis of_int_le_iff of_int_numeral of_int_power)
  then have "real_of_int ?m * ?q \<le> 2 ^ 53 * ?q" using qp by simp
  then have "real_of_int ?m * ?q \<le> 1" by (simp only: q) simp
  moreover have "(1::real) < two_to 1024" by (simp add: two_to_def)
  ultimately have r2: "\<not> two_to 1024 \<le> real_of_int ?m * ?q" by linarith
  have xp: "0 < x" using assms by simp
  have ax: "\<bar>x\<bar> = x" using xp by simp
  show ?thesis
    unfolding binary64_def Let_def ax using e t r1 r2 xp by simp
qed

section \<open>The engine of the examples\<close>

lemma ln2_bounds: "1 / 2 \<le> ln (2::real) \<and> ln (2::real) < 1"
proof
  have "ln (1 / 2 :: real) \<le> 1 / 2 - 1" by (rule ln_le_minus_one) simp
  then show "1 / 2 \<le> ln (2::real)" by (simp add: ln_div)
  show "ln (2::real) < 1" by (rule ln_2_less_1)
qed

lemma conforming_log_2: "conforming eng \<Longrightarrow> \<exists>y. Math_log eng (Num 2) = Num y \<and> 0 < y"
  by (cases "Math_log eng (Num 2)") (simp_all add: conforming_def)

lemma conforming_rounded_engine: "conforming rounded_engine"
proof -
  obtain y where "binary64 (ln 2) = Num y" "0 < y"
    using binary64_half_one ln2_bounds by blast
  then show ?thesis
    by (simp add: conforming_def rounded_engine_def binary64_0 binary64_1)
qed

section \<open>PitchMapper against its reference definition\<close>

lemma noteFromPitch_440:
  assumes "conforming eng"
  shows "noteFromPitch eng (Num 440) = Num 69"
proof -
  obtain y where y: "Math_log eng (Num 2) = Num y" "0 < y"
    using conforming_log_2[OF assms] by blast
  have l1: "Math_log eng (Num 1) = Num 0" using assms by (simp add: conforming_def)
  show ?thesis
    using y l1
    by (simp add: noteFromPitch_def f64_div_def f64_mul_def f64_add_def
        binary64_0 binary64_1 binary64_69)
qed










section \<open>The histories of updatePitch\<close>

lemma length_js_sort_by_count: "length (js_sort_by_count arr) = length arr"
  using sum_length_filter_compl[of "\<lambda>v. v = None" arr]
  by (simp add: js_sort_by_count_def)

lemma findMostFrequent_length: "length (snd (findMostFrequent arr)) \<le> length arr"
  by (simp add: findMostFrequent_def Let_def length_js_sort_by_count)

lemma findMostFrequent_single: "findMostFrequent [x] = (x, [])"
  by (cases x) (simp_all add: findMostFrequent_def js_sort_by_count_def)

lemma push_bounded_length: "length arr \<le> cap \<Longrightarrow> length (push_bounded cap arr x) \<le> cap"
  by (auto simp: push_bounded_def Let_def)

lemma push_bounded_ne: "0 < cap \<Longrightarrow> push_bounded cap arr x \<noteq> []"
  by (cases arr) (auto simp: push_bounded_def Let_def)


lemma smoothedFrequency_of_ne: "xs \<noteq> [] \<Longrightarrow> \<exists>s. smoothedFrequency_of xs = Inr s"
  by (cases xs) (auto simp: smoothedFrequency_of_def)

lemma needle_angle_0: "needle_angle (Num 0) = Num 0"
  by (simp add: needle_angle_def f64_div_def binary64_0 Math_min_def Math_max_def)

lemma invalid_estimate_cases:
  "(\<not> valid_estimate ac) =
     (ac = Num (- 1) \<or> ac = NaN \<or> ac = PosInf \<or> ac = NegInf \<or> (\<exists>f. ac = Num f \<and> f \<le> 0))"
  by (cases ac) auto

lemma no_pitch_step:
  "\<not> valid_estimate ac \<Longrightarrow>
   updatePitch_ac eng ac st =
     Inr (st\<lparr>noteDisplay := ''-'', frequencyDisplay := NoHz, flatSharpText := [],
            needle := Num 0, frequencyBuffer := [], noteBuffer := []\<rparr>)"
  by (simp add: updatePitch_ac_def needle_angle_0)

text \<open>A cycle with a valid estimate: what it does to the two buffers and the display.\<close>

lemma valid_step:
  assumes "valid_estimate (Num F)"
  shows "\<exists>st' f m. updatePitch_ac eng (Num F) st = Inr st' \<and>
           frequencyBuffer st' = push_bounded frequencyBufferSize (frequencyBuffer st) F \<and>
           smoothedFrequency_of (frequencyBuffer st') = Inr f \<and>
           frequencyDisplay st' = Hz f \<and>
           smoothedCents st' =
             f64_add (f64_mul (smoothedCents st) (binary64 (8 / 10)))
               (f64_mul (centsOffFromPitch eng f (noteFromPitch eng f)) (binary64 (2 / 10))) \<and>
           (m, noteBuffer st') =
             findMostFrequent (push_bounded noteBufferSize (noteBuffer st)
               (array_at noteStrings (js_rem (noteFromPitch eng f) (Num 12))))"
proof -
  let ?fb = "push_bounded frequencyBufferSize (frequencyBuffer st) F"
  have "?fb \<noteq> []" by (rule push_bounded_ne) (simp add: frequencyBufferSize_def)
  then obtain s where s: "smoothedFrequency_of ?fb = Inr s"
    using smoothedFrequency_of_ne by blast
  show ?thesis using assms s
    by (simp add: updatePitch_ac_def Let_def split: prod.splits)
qed

lemma step_lengths:
  assumes "length (frequencyBuffer st) \<le> 10" "length (noteBuffer st) \<le> 5"
  shows "\<exists>st'. updatePitch_ac eng ac st = Inr st' \<and>
           length (frequencyBuffer st') \<le> 10 \<and> length (noteBuffer st') \<le> 5"
proof (cases "valid_estimate ac")
  case False
  then show ?thesis by (simp add: no_pitch_step)
next
  case True
  then obtain F where F: "ac = Num F" by (cases ac) auto
  from valid_step[of F eng st] True F obtain st' f m where
    s: "updatePitch_ac eng ac st = Inr st'"
       "frequencyBuffer st' = push_bounded frequencyBufferSize (frequencyBuffer st) F"
       "(m, noteBuffer st') =
             findMostFrequent (push_bounded noteBufferSize (noteBuffer st)
               (array_at noteStrings (js_rem (noteFromPitch eng f) (Num 12))))"
    by auto
  have "length (frequencyBuffer st') \<le> 10"
    using s(2) push_bounded_length[of "frequencyBuffer st" frequencyBufferSize F] assms(1)
    by (simp add: frequencyBufferSize_def)
  moreover have "length (noteBuffer st') \<le> 5"
  proof -
    let ?nb = "push_bounded noteBufferSize (noteBuffer st)
               (array_at noteStrings (js_rem (noteFromPitch eng f) (Num 12)))"
    have "noteBuffer st' = snd (findMostFrequent ?nb)" using s(3) by (metis snd_conv)
    moreover have "length ?nb \<le> 5"
      using push_bounded_length[of "noteBuffer st" noteBufferSize] assms(2)
      by (simp add: noteBufferSize_def)
    ultimately show ?thesis using findMostFrequent_length[of ?nb] by simp
  qed
  ultimately show ?thesis using s(1) by simp
qed

lemma cycles_lengths:
  "length (frequencyBuffer st) \<le> 10 \<Longrightarrow> length (noteBuffer st) \<le> 5 \<Longrightarrow>
   \<exists>st'. cycles eng acs st = Inr st' \<and>
     length (frequencyBuffer st') \<le> 10 \<and> length (noteBuffer st') \<le> 5"
proof (induction acs arbitrary: st)
  case Nil
  then show ?case by simp
next
  case (Cons ac acs)
  from step_lengths[OF Cons.prems, of eng ac] obtain st1 where
    s: "updatePitch_ac eng ac st = Inr st1" "length (frequencyBuffer st1) \<le> 10"
       "length (noteBuffer st1) \<le> 5"
    by blast
  from Cons.IH[OF s(2,3)] s(1) show ?case by simp
qed

text \<open>
  Claim C6. A cycle whose estimate is not a valid pitch (the sentinel \<open>-1\<close>, a non-finite
  number, or a number that is not positive) empties the frequency history and the note
  history whatever they held, and sets the displays to the no-signal state: note \<open>-\<close>,
  frequency \<open>- Hz\<close>, no flat/sharp label, needle at angle 0.
\<close>

theorem no_pitch_clears_histories:
  assumes "ac = Num (- 1) \<or> ac = NaN \<or> ac = PosInf \<or> ac = NegInf \<or> (\<exists>f. ac = Num f \<and> f \<le> 0)"
  shows "\<exists>st'. updatePitch_ac eng ac st = Inr st' \<and>
           frequencyBuffer st' = [] \<and> noteBuffer st' = [] \<and>
           noteDisplay st' = ''-'' \<and> frequencyDisplay st' = NoHz \<and>
           flatSharpText st' = [] \<and> needle st' = Num 0"
proof -
  have "\<not> valid_estimate ac" using assms by (simp only: invalid_estimate_cases)
  then show ?thesis by (simp add: no_pitch_step)
qed

theorem no_pitch_clears_histories_witness:
  "frequencyBuffer busy_tuner = [440, 441] \<and> noteBuffer busy_tuner = [Some ''A''] \<and>
   (\<exists>st'. updatePitch_ac rounded_engine (Num (- 1)) busy_tuner = Inr st' \<and>
           frequencyBuffer st' = [] \<and> noteBuffer st' = [] \<and>
           noteDisplay st' = ''-'' \<and> frequencyDisplay st' = NoHz \<and>
           flatSharpText st' = [] \<and> needle st' = Num 0) \<and>
   (\<exists>st'. updatePitch_ac rounded_engine PosInf busy_tuner = Inr st' \<and>
           frequencyBuffer st' = [] \<and> noteBuffer st' = [] \<and>
           noteDisplay st' = ''-'' \<and> frequencyDisplay st' = NoHz \<and>
           flatSharpText st' = [] \<and> needle st' = Num 0)"
proof -
  have b: "frequencyBuffer busy_tuner = [440, 441] \<and> noteBuffer busy_tuner = [Some ''A'']"
    by (simp add: busy_tuner_def)
  have h1: "Num (- 1) = Num (- 1) \<or> Num (- 1) = NaN \<or> Num (- 1) = PosInf \<or> Num (- 1) = NegInf \<or>
      (\<exists>f. Num (- 1) = Num f \<and> f \<le> 0)" by simp
  have h2: "PosInf = Num (- 1) \<or> PosInf = NaN \<or> PosInf = PosInf \<or> PosInf = NegInf \<or>
      (\<exists>f. PosInf = Num f \<and> f \<le> 0)" by simp
  show ?thesis
    using b no_pitch_clears_histories[OF h1, of rounded_engine busy_tuner]
      no_pitch_clears_histories[OF h2, of rounded_engine busy_tuner]
    by blast
qed

text \<open>
  Claim C7. A cycle without a valid pitch leaves \<open>smoothedCents\<close> as it was: the two
  histories are emptied and the needle is set to angle 0 directly, while the smoothed
  cents keep the value of the last valid cycle.
\<close>

theorem no_pitch_keeps_smoothedCents:
  assumes "ac = Num (- 1) \<or> ac = NaN \<or> ac = PosInf \<or> ac = NegInf \<or> (\<exists>f. ac = Num f \<and> f \<le> 0)"
  shows "\<exists>st'. updatePitch_ac eng ac st = Inr st' \<and>
           smoothedCents st' = smoothedCents st \<and> needle st' = Num 0 \<and>
           frequencyBuffer st' = [] \<and> noteBuffer st' = []"
proof -
  have "\<not> valid_estimate ac" using assms by (simp only: invalid_estimate_cases)
  then show ?thesis by (simp add: no_pitch_step)
qed

theorem no_pitch_keeps_smoothedCents_witness:
  "smoothedCents busy_tuner = Num 30 \<and> needle busy_tuner = Num 15 \<and>
   (\<exists>st'. updatePitch_ac rounded_engine (Num (- 1)) busy_tuner = Inr st' \<and>
           smoothedCents st' = Num 30 \<and> needle st' = Num 0 \<and>
           frequencyBuffer st' = [] \<and> noteBuffer st' = [])"
proof -
  have b: "smoothedCents busy_tuner = Num 30 \<and> needle busy_tuner = Num 15"
    by (simp add: busy_tuner_def)
  have h: "Num (- 1) = Num (- 1) \<or> Num (- 1) = NaN \<or> Num (- 1) = PosInf \<or> Num (- 1) = NegInf \<or>
      (\<exists>f. Num (- 1) = Num f \<and> f \<le> 0)" by simp
  show ?thesis
    using b no_pitch_keeps_smoothedCents[OF h, of rounded_engine busy_tuner] by simp
qed

text \<open>
  Claim C9. From a tuner with empty histories, after any sequence of cycles, with valid
  and invalid estimates in any order, no cycle has thrown, the frequency history has at
  most 10 entries and the note history at most 5.
\<close>

theorem history_lengths_bounded:
  assumes "frequencyBuffer st = []" "noteBuffer st = []"
  shows "\<exists>st'. cycles eng acs st = Inr st' \<and>
           length (frequencyBuffer st') \<le> 10 \<and> length (noteBuffer st') \<le> 5"
  using assms cycles_lengths[of st eng acs] by simp

theorem history_lengths_bounded_witness:
  "frequencyBuffer idle_tuner = [] \<and> noteBuffer idle_tuner = [] \<and>
   (\<exists>st'. cycles rounded_engine [Num 440, Num 441, Num (- 1), NaN, Num 220] idle_tuner = Inr st' \<and>
           length (frequencyBuffer st') \<le> 10 \<and> length (noteBuffer st') \<le> 5)"
proof -
  have h1: "frequencyBuffer idle_tuner = []" by (simp add: idle_tuner_def)
  have h2: "noteBuffer idle_tuner = []" by (simp add: idle_tuner_def)
  show ?thesis
    using h1 h2 history_lengths_bounded[OF h1 h2, of rounded_engine "[Num 440, Num 441, Num (- 1), NaN, Num 220]"]
    by blast
qed

section \<open>A constant estimate\<close>













section \<open>The note history\<close>

lemma note_name_69: "array_at noteStrings (js_rem (Num 69) (Num 12)) = Some ''A''"
  by (simp add: trunc_def noteStrings_def)

text \<open>
  Claim C3 does not hold of the code. \<open>findMostFrequent\<close> sorts and pops the note buffer
  itself, so each valid cycle removes from the note history the note it displays: from
  the idle tuner a cycle at 440 Hz displays \<open>A\<close> and leaves the history empty again, and
  on a history \<open>A, B, A\<close> the function leaves \<open>B, A\<close>.
\<close>

theorem note_history_is_popped:
  assumes "conforming eng"
  shows "(\<exists>st'. updatePitch_ac eng (Num 440) idle_tuner = Inr st' \<and>
            noteDisplay st' = ''A'' \<and> noteBuffer st' = []) \<and>
         findMostFrequent [Some ''A'', Some ''B'', Some ''A'']
           = (Some ''A'', [Some ''B'', Some ''A''])"
proof
  have v: "valid_estimate (Num 440)" by simp
  have n: "noteFromPitch eng (Num 440) = Num 69" by (rule noteFromPitch_440[OF assms])
  have "push_bounded frequencyBufferSize (frequencyBuffer idle_tuner) 440 = [440]"
    by (simp add: push_bounded_def idle_tuner_def frequencyBufferSize_def)
  moreover have "smoothedFrequency_of [440] = Inr (Num 440)"
    by (simp add: smoothedFrequency_of_def f64_div_def binary64_440)
  moreover have "push_bounded noteBufferSize (noteBuffer idle_tuner) (Some ''A'') = [Some ''A'']"
    by (simp add: push_bounded_def idle_tuner_def noteBufferSize_def)
  ultimately show "\<exists>st'. updatePitch_ac eng (Num 440) idle_tuner = Inr st' \<and>
          noteDisplay st' = ''A'' \<and> noteBuffer st' = []"
    using v n note_name_69
    by (simp add: updatePitch_ac_def Let_def findMostFrequent_single)
  show "findMostFrequent [Some ''A'', Some ''B'', Some ''A'']
          = (Some ''A'', [Some ''B'', Some ''A''])"
    by code_simp
qed

theorem note_history_is_popped_witness:
  "conforming rounded_engine \<and>
   (\<exists>st'. updatePitch_ac rounded_engine (Num 440) idle_tuner = Inr st' \<and>
           noteDisplay st' = ''A'' \<and> noteBuffer st' = []) \<and>
   findMostFrequent [Some ''A'', Some ''B'', Some ''A''] = (Some ''A'', [Some ''B'', Some ''A''])"
  using conforming_rounded_engine note_history_is_popped[OF conforming_rounded_engine]
  by blast
section \<open>The scan over the lags\<close>

lemma previous_correlation_Suc: "previous_correlation buffer (Suc k) = correlation_at buffer k"
  by (simp add: previous_correlation_def)

text \<open>Lags that are not accepted, before any was accepted: only \<open>lastCorrelation\<close> moves.\<close>

lemma scan_skip:
  assumes "\<not> foundGoodCorrelation v" "lastCorrelation v = previous_correlation buffer a"
    and "a \<le> b" "b \<le> MAX_SAMPLES buffer" "\<forall>k. a \<le> k \<and> k < b \<longrightarrow> \<not> rising_good buffer k"
  shows "scan buffer a v = scan buffer b (v\<lparr>lastCorrelation := previous_correlation buffer b\<rparr>)"
  using assms
proof (induction "b - a" arbitrary: a v)
  case 0
  then show ?case by (cases v) auto
next
  case (Suc d)
  then have lt: "a < b" "a < MAX_SAMPLES buffer" by auto
  have nr: "\<not> rising_good buffer a" using Suc.prems lt by simp
  have step: "scan buffer a v = scan buffer (Suc a) (v\<lparr>lastCorrelation := correlation_at buffer a\<rparr>)"
    using nr lt Suc.prems(1,2) by (subst scan.simps) (auto simp: rising_good_def Let_def)
  have "scan buffer (Suc a) (v\<lparr>lastCorrelation := correlation_at buffer a\<rparr>)
        = scan buffer b (v\<lparr>lastCorrelation := correlation_at buffer a\<rparr>
                          \<lparr>lastCorrelation := previous_correlation buffer b\<rparr>)"
    using Suc by (intro Suc.hyps(1)) (auto simp: previous_correlation_Suc)
  with step show ?case by simp
qed

text \<open>The first accepted lag, then a run of accepted lags: the best is always the latest.\<close>

lemma scan_first_accept:
  assumes "a < MAX_SAMPLES buffer" "rising_good buffer a"
    and "lastCorrelation v = previous_correlation buffer a" "bestCorrelation v = Num 0"
  shows "scan buffer a v = scan buffer (Suc a) (accepted_vars buffer a)"
proof -
  have "js_gt (correlation_at buffer a) (Num 0)"
    using assms(2) js_gt_Num_mono[of "correlation_at buffer a" "9 / 10" 0]
    by (simp add: rising_good_def)
  then show ?thesis using assms
    by (subst scan.simps, cases v) (simp add: rising_good_def Let_def accepted_vars_def)
qed

lemma scan_accept_next:
  assumes "Suc a < MAX_SAMPLES buffer" "rising_good buffer (Suc a)"
  shows "scan buffer (Suc a) (accepted_vars buffer a)
         = scan buffer (Suc (Suc a)) (accepted_vars buffer (Suc a))"
  using assms
  by (subst scan.simps)
    (simp add: rising_good_def Let_def accepted_vars_def previous_correlation_Suc)

lemma scan_run:
  assumes "a \<le> b" "b < MAX_SAMPLES buffer" "\<forall>k. a < k \<and> k \<le> b \<longrightarrow> rising_good buffer k"
  shows "scan buffer (Suc a) (accepted_vars buffer a) = scan buffer (Suc b) (accepted_vars buffer b)"
  using assms
proof (induction "b - a" arbitrary: a)
  case 0
  then show ?case by simp
next
  case (Suc d)
  then have "Suc a < MAX_SAMPLES buffer" "rising_good buffer (Suc a)" by auto
  then have "scan buffer (Suc a) (accepted_vars buffer a)
      = scan buffer (Suc (Suc a)) (accepted_vars buffer (Suc a))"
    by (rule scan_accept_next)
  also have "\<dots> = scan buffer (Suc b) (accepted_vars buffer b)"
    using Suc by (intro Suc.hyps(1)) auto
  finally show ?case .
qed

lemma scan_stop:
  assumes "Suc b < MAX_SAMPLES buffer" "\<not> rising_good buffer (Suc b)"
  shows "scan buffer (Suc b) (accepted_vars buffer b)
         = Refined (Suc b) (int b) (correlationShift buffer (MAX_SAMPLES buffer) (Suc b))"
proof -
  have "\<not> (js_gt (correlation_at buffer (Suc b)) (Num (9 / 10)) \<and>
      js_gt (correlation_at buffer (Suc b)) (correlation_at buffer b))"
    using assms(2) by (simp add: rising_good_def previous_correlation_Suc)
  then show ?thesis using assms(1)
    by (subst scan.simps) (auto simp: Let_def accepted_vars_def)
qed


text \<open>The three ways through the scan.\<close>

lemma scan_refined:
  assumes "g < p" "p < MAX_SAMPLES buffer"
    and "\<forall>k<g. \<not> rising_good buffer k"
    and "\<forall>k. g \<le> k \<and> k < p \<longrightarrow> rising_good buffer k"
    and "\<not> rising_good buffer p"
  shows "scan buffer 0 scan_init
         = Refined p (int p - 1) (correlationShift buffer (MAX_SAMPLES buffer) p)"
proof -
  obtain b where b: "p = Suc b" using assms(1) by (cases p) auto
  have "scan buffer 0 scan_init
      = scan buffer g (scan_init\<lparr>lastCorrelation := previous_correlation buffer g\<rparr>)"
    using assms by (intro scan_skip) (auto simp: scan_init_def previous_correlation_def)
  also have "\<dots> = scan buffer (Suc g) (accepted_vars buffer g)"
    using assms by (intro scan_first_accept) (auto simp: scan_init_def)
  also have "\<dots> = scan buffer (Suc b) (accepted_vars buffer b)"
    using assms b by (intro scan_run) auto
  also have "\<dots> = Refined (Suc b) (int b) (correlationShift buffer (MAX_SAMPLES buffer) (Suc b))"
    using assms b by (intro scan_stop) auto
  finally show ?thesis using b by simp
qed




section \<open>Reads of the block\<close>

lemma abs_diff_sum_Suc:
  "abs_diff_sum buffer (Suc n) d =
     js_add (abs_diff_sum buffer n d)
       (js_abs (js_sub (buf_at buffer (int n)) (buf_at buffer (int n + d))))"
  by (simp add: abs_diff_sum_def)

text \<open>A sum whose reads are all inside the block is a number, never \<open>NaN\<close>.\<close>

lemma abs_diff_sum_in_range:
  "0 \<le> d \<Longrightarrow> int n + d \<le> int (length buffer) \<Longrightarrow>
   \<exists>x. abs_diff_sum buffer n d = Num x \<and> 0 \<le> x"
proof (induction n)
  case 0
  then show ?case by (simp add: abs_diff_sum_def)
next
  case (Suc n)
  then obtain x where x: "abs_diff_sum buffer n d = Num x" "0 \<le> x" by auto
  have "buf_at buffer (int n) = Num (buffer ! n)" using Suc.prems by (simp add: buf_at_def)
  moreover have "buf_at buffer (int n + d) = Num (buffer ! nat (int n + d))"
    using Suc.prems by (simp add: buf_at_def)
  ultimately show ?case using x by (simp add: abs_diff_sum_Suc js_sub_def)
qed

lemma abs_diff_sum_zero_lag: "n \<le> length buffer \<Longrightarrow> abs_diff_sum buffer n 0 = Num 0"
proof (induction n)
  case 0
  then show ?case by (simp add: abs_diff_sum_def)
next
  case (Suc n)
  then show ?case by (simp add: abs_diff_sum_Suc js_sub_def buf_at_def)
qed

text \<open>The scan of \<open>autoCorrelate\<close> reads inside the block at every lag.\<close>

lemma scan_reads_in_range:
  "offset < MAX_SAMPLES buffer \<Longrightarrow> i < MAX_SAMPLES buffer \<Longrightarrow> i + offset < length buffer"
  by (simp add: MAX_SAMPLES_def)

lemma correlation_at_Num:
  assumes "offset < MAX_SAMPLES buffer"
  shows "\<exists>x. correlation_at buffer offset = Num x \<and> x \<le> 1"
proof -
  have "int (MAX_SAMPLES buffer) + int offset \<le> int (length buffer)"
    using assms by (simp add: MAX_SAMPLES_def)
  then obtain s where s: "abs_diff_sum buffer (MAX_SAMPLES buffer) (int offset) = Num s" "0 \<le> s"
    using abs_diff_sum_in_range[of "int offset" "MAX_SAMPLES buffer" buffer] by auto
  then show ?thesis using assms by (simp add: correlation_at_def js_sub_def)
qed

lemma correlation_at_0: "0 < MAX_SAMPLES buffer \<Longrightarrow> correlation_at buffer 0 = Num 1"
proof -
  assume m: "0 < MAX_SAMPLES buffer"
  have "MAX_SAMPLES buffer \<le> length buffer" by (simp add: MAX_SAMPLES_def)
  then have "abs_diff_sum buffer (MAX_SAMPLES buffer) 0 = Num 0" by (rule abs_diff_sum_zero_lag)
  then show ?thesis using m by (simp add: correlation_at_def js_sub_def)
qed

lemma not_rising_good_0: "\<not> rising_good buffer 0"
proof (cases "0 < MAX_SAMPLES buffer")
  case True
  then show ?thesis
    by (simp add: rising_good_def correlation_at_0 previous_correlation_def js_gt_def)
next
  case False
  then show ?thesis
    by (simp add: rising_good_def correlation_at_def abs_diff_sum_def js_sub_def js_gt_def)
qed

section \<open>The index of correlationShift\<close>

lemma shift_loop_range:
  "i = 0 \<or> (0 \<le> best_offset v \<and> best_offset v < 16) \<Longrightarrow>
   0 \<le> best_offset (shift_loop buffer maxSamples offset i v) \<and>
   best_offset (shift_loop buffer maxSamples offset i v) < 16 \<or> 16 \<le> i"
proof (induction buffer maxSamples offset i v rule: shift_loop.induct)
  case (1 buffer maxSamples offset i v)
  show ?case
  proof (cases "i < 16")
    case False
    then show ?thesis by simp
  next
    case True
    let ?c = "abs_diff_sum buffer maxSamples (int offset + int i)"
    let ?cp = "abs_diff_sum buffer maxSamples (int offset + int i - 1)"
    let ?v1 = "v\<lparr>cc := ?c, cc_prev := ?cp\<rparr>"
    let ?v2 = "if i = 0 \<or> js_lt ?c (best_correlation ?v1)
                  then ?v1\<lparr>best_correlation := ?c, best_offset := int i\<rparr> else ?v1"
    have r2: "0 \<le> best_offset ?v2 \<and> best_offset ?v2 < 16" using True "1.prems" by auto
    show ?thesis
    proof (cases "js_gt ?c ?cp")
      case True
      then show ?thesis using \<open>i < 16\<close> r2
        by (subst (1 2) shift_loop.simps) (simp add: Let_def)
    next
      case False
      have ih: "0 \<le> best_offset (shift_loop buffer maxSamples offset (Suc i) ?v2) \<and>
            best_offset (shift_loop buffer maxSamples offset (Suc i) ?v2) < 16 \<or> 16 \<le> Suc i"
        using "1.IH"[OF True refl refl refl refl False] r2 by blast
      have "Suc i = 16 \<Longrightarrow> shift_loop buffer maxSamples offset (Suc i) ?v2 = ?v2"
        by (subst shift_loop.simps) simp
      then have "0 \<le> best_offset (shift_loop buffer maxSamples offset (Suc i) ?v2) \<and>
            best_offset (shift_loop buffer maxSamples offset (Suc i) ?v2) < 16"
        using ih r2 True by (cases "Suc i = 16") auto
      then show ?thesis using False \<open>i < 16\<close>
        by (subst (1 2) shift_loop.simps) (simp add: Let_def)
    qed
  qed
qed

lemma correlationShift_range:
  "0 \<le> correlationShift buffer maxSamples offset \<and>
   correlationShift buffer maxSamples offset \<le> 15"
  using shift_loop_range[of 0 shift_init buffer maxSamples offset]
  by (simp add: correlationShift_def)









section \<open>A block of 2048 samples that is refined at the last lag\<close>

lemma length_pulse_block: "length (pulse_block m) = 2 * m"
  by (simp add: pulse_block_def)

lemma MAX_SAMPLES_pulse_block: "MAX_SAMPLES (pulse_block m) = m"
  by (simp add: MAX_SAMPLES_def length_pulse_block)

lemma nth_pulse_block:
  "j < 2 * m \<Longrightarrow> pulse_block m ! j = (if 1 \<le> j \<and> j \<le> m - 3 then 1 / 10 else 0)"
  by (simp add: pulse_block_def)

text \<open>A sum whose reads are inside the block, as a sum of reals.\<close>

lemma abs_diff_sum_real:
  "n + d \<le> length buffer \<Longrightarrow>
   abs_diff_sum buffer n (int d) = Num (\<Sum>i<n. \<bar>buffer ! i - buffer ! (i + d)\<bar>)"
proof (induction n)
  case 0
  then show ?case by (simp add: abs_diff_sum_def)
next
  case (Suc n)
  have "buf_at buffer (int n) = Num (buffer ! n)" using Suc.prems by (simp add: buf_at_def)
  moreover have "buf_at buffer (int n + int d) = Num (buffer ! (n + d))"
    using Suc.prems by (simp add: buf_at_def nat_add_distrib)
  ultimately show ?case using Suc by (simp add: abs_diff_sum_Suc js_sub_def)
qed

text \<open>A sum whose last read is outside the block is \<open>NaN\<close>.\<close>

lemma abs_diff_sum_past:
  "0 < n \<Longrightarrow> int (length buffer) \<le> int n - 1 + d \<Longrightarrow> abs_diff_sum buffer n d = NaN"
proof -
  assume n: "0 < n" and d: "int (length buffer) \<le> int n - 1 + d"
  obtain k where k: "n = Suc k" using n by (cases n) auto
  have "buf_at buffer (int k + d) = NaN" using d k by (simp add: buf_at_def)
  then have "js_abs (js_sub (buf_at buffer (int k)) (buf_at buffer (int k + d))) = NaN"
    by (cases "buf_at buffer (int k)") (simp_all add: js_sub_def)
  then show ?thesis
    by (cases "abs_diff_sum buffer k d") (simp_all add: k abs_diff_sum_Suc)
qed

text \<open>The sums of the pulse block.\<close>

lemma sum_indicator:
  "(\<Sum>i<(m::nat). if Q i then c else (0::real)) = c * real (card {i. i < m \<and> Q i})"
proof (induction m)
  case 0
  then show ?case by simp
next
  case (Suc m)
  have fin: "finite {i. i < m \<and> Q i}" by simp
  have notin: "m \<notin> {i. i < m \<and> Q i}" by simp
  show ?case
  proof (cases "Q m")
    case True
    then have "{i. i < Suc m \<and> Q i} = insert m {i. i < m \<and> Q i}" by (auto simp: less_Suc_eq)
    moreover have "card (insert m {i. i < m \<and> Q i}) = Suc (card {i. i < m \<and> Q i})"
      using fin notin by (rule card_insert_disjoint)
    ultimately have "card {i. i < Suc m \<and> Q i} = Suc (card {i. i < m \<and> Q i})"
      by (simp only:)
    then show ?thesis using True Suc by (simp add: algebra_simps)
  next
    case False
    then have "{i. i < Suc m \<and> Q i} = {i. i < m \<and> Q i}" by (auto simp: less_Suc_eq)
    then show ?thesis using False Suc by simp
  qed
qed

lemma pulse_term:
  assumes "i < m" "k \<le> m"
  shows "\<bar>pulse_block m ! i - pulse_block m ! (i + k)\<bar> =
     (if (1 \<le> i \<and> i \<le> m - 3) \<noteq> (1 \<le> i + k \<and> i + k \<le> m - 3) then 1 / 10 else 0)"
proof -
  have "i < 2 * m" "i + k < 2 * m" using assms by auto
  then show ?thesis by (simp add: nth_pulse_block)
qed

lemma pulse_sum_card:
  assumes "k \<le> m"
  shows "(\<Sum>i<m. \<bar>pulse_block m ! i - pulse_block m ! (i + k)\<bar>) =
     (1 / 10) * real (card {i. i < m \<and>
        ((1 \<le> i \<and> i \<le> m - 3) \<noteq> (1 \<le> i + k \<and> i + k \<le> m - 3))})"
proof -
  have "(\<Sum>i<m. \<bar>pulse_block m ! i - pulse_block m ! (i + k)\<bar>) =
      (\<Sum>i<m. if (1 \<le> i \<and> i \<le> m - 3) \<noteq> (1 \<le> i + k \<and> i + k \<le> m - 3)
                then 1 / 10 else (0::real))"
    using assms by (intro sum.cong refl) (simp add: pulse_term)
  then show ?thesis by (simp only: sum_indicator)
qed

lemma pulse_sum_far:
  assumes "4 \<le> m" "m - 2 \<le> k" "k \<le> m"
  shows "(\<Sum>i<m. \<bar>pulse_block m ! i - pulse_block m ! (i + k)\<bar>) = (real m - 3) / 10"
proof -
  have "{i. i < m \<and> ((1 \<le> i \<and> i \<le> m - 3) \<noteq> (1 \<le> i + k \<and> i + k \<le> m - 3))} = {1..m - 3}"
    using assms by auto
  then show ?thesis using assms by (simp add: pulse_sum_card of_nat_diff)
qed

lemma pulse_sum_near:
  assumes "4 \<le> m" "1 \<le> k" "k \<le> m - 3"
  shows "(\<Sum>i<m. \<bar>pulse_block m ! i - pulse_block m ! (i + k)\<bar>) = (real k + 1) / 10"
proof -
  have "{i. i < m \<and> ((1 \<le> i \<and> i \<le> m - 3) \<noteq> (1 \<le> i + k \<and> i + k \<le> m - 3))}
      = insert 0 {m - 2 - k..m - 3}"
    using assms by auto
  moreover have "card (insert 0 {m - 2 - k..m - 3}) = k + 1"
    using assms by simp
  ultimately show ?thesis using assms by (simp add: pulse_sum_card)
qed

lemma pulse_abs_diff_sum_far:
  assumes "4 \<le> m" "m - 2 \<le> k" "k \<le> m"
  shows "abs_diff_sum (pulse_block m) m (int k) = Num ((real m - 3) / 10)"
  using assms abs_diff_sum_real[of m k "pulse_block m"]
  by (simp add: length_pulse_block pulse_sum_far)

lemma pulse_abs_diff_sum_near:
  assumes "4 \<le> m" "1 \<le> k" "k \<le> m - 3"
  shows "abs_diff_sum (pulse_block m) m (int k) = Num ((real k + 1) / 10)"
  using assms abs_diff_sum_real[of m k "pulse_block m"]
  by (simp add: length_pulse_block pulse_sum_near)

lemma pulse_correlation_far:
  assumes "4 \<le> m" "m - 2 \<le> k" "k \<le> m"
  shows "correlation_at (pulse_block m) k = Num (1 - (real m - 3) / 10 / real m)"
  using assms
  by (simp add: correlation_at_def MAX_SAMPLES_pulse_block pulse_abs_diff_sum_far js_sub_def)

lemma pulse_correlation_near:
  assumes "4 \<le> m" "1 \<le> k" "k \<le> m - 3"
  shows "correlation_at (pulse_block m) k = Num (1 - (real k + 1) / 10 / real m)"
  using assms
  by (simp add: correlation_at_def MAX_SAMPLES_pulse_block pulse_abs_diff_sum_near js_sub_def)


text \<open>The scan of the pulse block stops at the last lag.\<close>

lemma pulse_not_rising_near:
  assumes "4 \<le> m" "k < m - 2"
  shows "\<not> rising_good (pulse_block m) k"
proof (cases "k = 0")
  case True
  then show ?thesis by (simp add: not_rising_good_0)
next
  case False
  then have k: "1 \<le> k" "k \<le> m - 3" using assms by auto
  have c: "correlation_at (pulse_block m) k = Num (1 - (real k + 1) / 10 / real m)"
    using assms(1) k by (rule pulse_correlation_near)
  have "\<exists>x. previous_correlation (pulse_block m) k = Num x \<and> 1 - (real k + 1) / 10 / real m \<le> x"
  proof (cases "k = 1")
    case True
    have "0 < MAX_SAMPLES (pulse_block m)" using assms(1) by (simp add: MAX_SAMPLES_pulse_block)
    then have "previous_correlation (pulse_block m) k = Num 1"
      using True by (simp add: previous_correlation_def correlation_at_0)
    moreover have "1 - (real k + 1) / 10 / real m \<le> 1" by simp
    ultimately show ?thesis by blast
  next
    case False
    then have k1: "1 \<le> k - 1" "k - 1 \<le> m - 3" using k by auto
    have "correlation_at (pulse_block m) (k - 1) = Num (1 - (real (k - 1) + 1) / 10 / real m)"
      using assms(1) k1 by (rule pulse_correlation_near)
    then have "previous_correlation (pulse_block m) k = Num (1 - (real (k - 1) + 1) / 10 / real m)"
      using k by (simp add: previous_correlation_def)
    moreover have "1 - (real k + 1) / 10 / real m \<le> 1 - (real (k - 1) + 1) / 10 / real m"
      using k assms(1) by (simp add: divide_right_mono of_nat_diff)
    ultimately show ?thesis by blast
  qed
  then show ?thesis using c by (auto simp: rising_good_def js_gt_def)
qed

lemma pulse_rising_at:
  assumes "4 \<le> m"
  shows "rising_good (pulse_block m) (m - 2)"
proof -
  have c: "correlation_at (pulse_block m) (m - 2) = Num (1 - (real m - 3) / 10 / real m)"
    using assms by (intro pulse_correlation_far) auto
  have "correlation_at (pulse_block m) (m - 3) = Num (1 - (real (m - 3) + 1) / 10 / real m)"
    using assms by (intro pulse_correlation_near) auto
  moreover have "m - 2 - 1 = m - 3" by simp
  ultimately have p: "previous_correlation (pulse_block m) (m - 2)
      = Num (1 - (real (m - 3) + 1) / 10 / real m)"
    using assms by (simp add: previous_correlation_def)
  have m: "0 < real m" using assms by simp
  have "(real m - 3) / 10 / real m < 1 / 10" using m by (simp add: field_simps)
  then have a: "9 / 10 < 1 - (real m - 3) / 10 / real m" by simp
  have "(real m - 3) / 10 / real m < (real (m - 3) + 1) / 10 / real m"
    using m assms by (simp add: divide_strict_right_mono of_nat_diff)
  then have b: "1 - (real (m - 3) + 1) / 10 / real m < 1 - (real m - 3) / 10 / real m" by simp
  show ?thesis unfolding rising_good_def c p using a b by (simp add: js_gt_def)
qed

lemma pulse_not_rising_last:
  assumes "4 \<le> m"
  shows "\<not> rising_good (pulse_block m) (m - 1)"
proof -
  have c: "correlation_at (pulse_block m) (m - 1) = Num (1 - (real m - 3) / 10 / real m)"
    using assms by (intro pulse_correlation_far) auto
  have "correlation_at (pulse_block m) (m - 2) = Num (1 - (real m - 3) / 10 / real m)"
    using assms by (intro pulse_correlation_far) auto
  moreover have "m - 1 - 1 = m - 2" by simp
  ultimately have p: "previous_correlation (pulse_block m) (m - 1)
      = Num (1 - (real m - 3) / 10 / real m)"
    using assms by (simp add: previous_correlation_def)
  show ?thesis unfolding rising_good_def c p by (simp add: js_gt_def)
qed

lemma foldl_squares_sum_list:
  "foldl (\<lambda>acc val. acc + val * val) a buffer = a + sum_list (map (\<lambda>v. v * v) (buffer :: real list))"
  by (induction buffer arbitrary: a) auto

lemma sum_squares_pulse_block: "sum_squares (pulse_block m) = real (m - 3) / 100"
proof -
  have "sum_squares (pulse_block m)
      = sum_list (map (\<lambda>j. if 1 \<le> j \<and> j \<le> m - 3 then 1 / 100 else (0::real)) [0..<2 * m])"
    by (simp add: sum_squares_def foldl_squares_sum_list pulse_block_def comp_def if_distrib cong: if_cong)
  also have "\<dots> = (\<Sum>j<2 * m. if 1 \<le> j \<and> j \<le> m - 3 then 1 / 100 else (0::real))"
    by (simp add: interv_sum_list_conv_sum_set_nat atLeast0LessThan)
  also have "\<dots> = (1 / 100) * real (card {j. j < 2 * m \<and> (1 \<le> j \<and> j \<le> m - 3)})"
    by (rule sum_indicator)
  also have "{j. j < 2 * m \<and> (1 \<le> j \<and> j \<le> m - 3)} = {1..m - 3}" by auto
  finally show ?thesis by simp
qed

lemma pulse_strong:
  assumes "4 \<le> m"
  shows "js_ge (rms (pulse_block m)) (Num (1 / 100))"
proof -
  have ne: "pulse_block m \<noteq> []" using assms by (simp add: pulse_block_def)
  have "2 * real m \<le> 100 * (real m - 3)" using assms by simp
  then have "1 / 10000 \<le> (real m - 3) / 100 / (2 * real m)"
    using assms by (simp add: field_simps)
  then show ?thesis
    using assms by (simp add: rms_ge_iff[OF ne] sum_squares_pulse_block length_pulse_block of_nat_diff)
qed

lemma pulse_exit:
  assumes "4 \<le> m"
  shows "autoCorrelate_exit (pulse_block m)
     = Refined (m - 1) (int (m - 1) - 1) (correlationShift (pulse_block m) m (m - 1))"
proof -
  have a: "m - 2 < m - 1" using assms by simp
  have b: "m - 1 < MAX_SAMPLES (pulse_block m)" using assms by (simp add: MAX_SAMPLES_pulse_block)
  have c: "\<forall>k<m - 2. \<not> rising_good (pulse_block m) k"
    using assms pulse_not_rising_near by blast
  have "k = m - 2" if "m - 2 \<le> k \<and> k < m - 1" for k using that assms by linarith
  then have d: "\<forall>k. m - 2 \<le> k \<and> k < m - 1 \<longrightarrow> rising_good (pulse_block m) k"
    using pulse_rising_at[OF assms] by blast
  have e: "\<not> rising_good (pulse_block m) (m - 1)" using assms by (rule pulse_not_rising_last)
  show ?thesis
    using strong_exit[OF pulse_strong[OF assms]] scan_refined[OF a b c d e]
    by (simp add: MAX_SAMPLES_pulse_block)
qed

text \<open>Steps of \<open>correlationShift\<close> whose sums are \<open>NaN\<close> neither update the best step nor leave the loop.\<close>

lemma shift_loop_nan_tail:
  assumes "\<forall>j\<ge>i. abs_diff_sum buffer n (int offset + int j) = NaN" "0 < i" "i < 16"
  shows "cc (shift_loop buffer n offset i v) = NaN \<and>
         best_offset (shift_loop buffer n offset i v) = best_offset v"
  using assms
proof (induction buffer n offset i v rule: shift_loop.induct)
  case (1 buffer n offset i v)
  let ?cp = "abs_diff_sum buffer n (int offset + int i - 1)"
  let ?v2 = "v\<lparr>cc := NaN, cc_prev := ?cp\<rparr>"
  have c: "abs_diff_sum buffer n (int offset + int i) = NaN" using "1.prems"(1) by simp
  have step: "shift_loop buffer n offset i v = shift_loop buffer n offset (Suc i) ?v2"
    using "1.prems"(2,3) by (subst shift_loop.simps) (simp add: c Let_def js_gt_def)
  show ?case
  proof (cases "Suc i = 16")
    case True
    then have "shift_loop buffer n offset (Suc i) ?v2 = ?v2"
      by (subst shift_loop.simps) simp
    then show ?thesis using step by simp
  next
    case False
    then have lt: "Suc i < 16" using "1.prems"(3) by simp
    have nb: "\<not> js_gt (abs_diff_sum buffer n (int offset + int i)) ?cp"
      by (simp add: c js_gt_def)
    have "cc (shift_loop buffer n offset (Suc i) ?v2) = NaN \<and>
         best_offset (shift_loop buffer n offset (Suc i) ?v2) = best_offset ?v2"
      using "1.IH"[OF "1.prems"(3) refl refl refl refl nb] "1.prems"(1,2) lt
      by (simp add: c)
    then show ?thesis using step by simp
  qed
qed

lemma pulse_shift_loop:
  assumes "4 \<le> m"
  shows "cc (shift_loop (pulse_block m) m (m - 1) 0 shift_init) = NaN \<and>
         best_offset (shift_loop (pulse_block m) m (m - 1) 0 shift_init) = 0"
proof -
  define q where "q = m - 1"
  let ?s = "Num ((real m - 3) / 10)"
  let ?v = "\<lparr>best_offset = 0, best_correlation = ?s, cc = ?s, cc_prev = ?s\<rparr>"
  have i1: "int q - 1 = int (m - 2)" "int q + 1 = int m" using assms by (auto simp: q_def)
  have s0: "abs_diff_sum (pulse_block m) m (int q) = ?s"
    using assms by (intro pulse_abs_diff_sum_far) (auto simp: q_def)
  have "abs_diff_sum (pulse_block m) m (int (m - 2)) = ?s"
    using assms by (intro pulse_abs_diff_sum_far) auto
  then have sp: "abs_diff_sum (pulse_block m) m (int q - 1) = ?s" by (simp only: i1)
  have "abs_diff_sum (pulse_block m) m (int m) = ?s"
    using assms by (intro pulse_abs_diff_sum_far) auto
  then have s1: "abs_diff_sum (pulse_block m) m (int q + 1) = ?s" by (simp only: i1)
  have step0: "shift_loop (pulse_block m) m q 0 shift_init
      = shift_loop (pulse_block m) m q (Suc 0) ?v"
    by (subst shift_loop.simps) (simp add: s0 sp Let_def js_gt_def shift_init_def)
  have step1: "shift_loop (pulse_block m) m q (Suc 0) ?v
      = shift_loop (pulse_block m) m q (Suc (Suc 0)) ?v"
    by (subst shift_loop.simps) (simp add: s0 s1 Let_def js_gt_def)
  have "abs_diff_sum (pulse_block m) m (int q + int j) = NaN" if "Suc (Suc 0) \<le> j" for j
    using assms that by (intro abs_diff_sum_past) (auto simp: length_pulse_block q_def)
  then have "cc (shift_loop (pulse_block m) m q (Suc (Suc 0)) ?v) = NaN \<and>
         best_offset (shift_loop (pulse_block m) m q (Suc (Suc 0)) ?v) = best_offset ?v"
    by (intro shift_loop_nan_tail) auto
  then show ?thesis using step0 step1 by (simp add: q_def)
qed

section \<open>The estimates of autoCorrelate\<close>












text \<open>
  Claim C8 does not hold of the code. The scan of \<open>autoCorrelate\<close> reads inside the
  block (\<open>scan_reads_in_range\<close>), \<open>correlationShift\<close> does not always. On the block of
  2048 samples with a pulse of 0.1 on the samples 1 to 1021, lag 1022 is the first one
  accepted and the scan stops at lag 1023. The sums at the lags 1022, 1023 and 1024 are
  equal, so \<open>correlationShift\<close> does not leave its loop at steps 0 and 1; step 2 reads
  \<open>buffer[j + 1023 + 2]\<close> for \<open>j = 1023\<close>, index 2048 of a block of length 2048. That
  read is \<open>undefined\<close>, the sum \<open>NaN\<close>, and so it stays up to the last step; the index
  returned comes from the steps that were in range.
\<close>

theorem refinement_reads_past_block:
  "length (pulse_block 1024) = 2048 \<and>
   autoCorrelate_exit (pulse_block 1024) = Refined 1023 1022 0 \<and>
   shift_sum (pulse_block 1024) 1024 1023 0 = shift_sum_prev (pulse_block 1024) 1024 1023 0 \<and>
   shift_sum (pulse_block 1024) 1024 1023 1 = shift_sum_prev (pulse_block 1024) 1024 1023 1 \<and>
   buf_at (pulse_block 1024) (1023 + 1023 + 2) = NaN \<and>
   shift_sum (pulse_block 1024) 1024 1023 2 = NaN \<and>
   cc (shift_loop (pulse_block 1024) 1024 1023 0 shift_init) = NaN \<and>
   correlationShift (pulse_block 1024) 1024 1023 = 0"
proof -
  have m: "(4::nat) \<le> 1024" by simp
  have l: "length (pulse_block 1024) = 2048" by (simp add: length_pulse_block)
  have loop: "cc (shift_loop (pulse_block 1024) 1024 1023 0 shift_init) = NaN \<and>
         best_offset (shift_loop (pulse_block 1024) 1024 1023 0 shift_init) = 0"
    using pulse_shift_loop[OF m] by simp
  then have r: "correlationShift (pulse_block 1024) 1024 1023 = 0"
    by (simp add: correlationShift_def)
  have e: "autoCorrelate_exit (pulse_block 1024) = Refined 1023 1022 0"
    using pulse_exit[OF m] r by simp
  have a: "abs_diff_sum (pulse_block 1024) 1024 (int 1022) = Num ((real 1024 - 3) / 10)"
    by (intro pulse_abs_diff_sum_far) auto
  have b: "abs_diff_sum (pulse_block 1024) 1024 (int 1023) = Num ((real 1024 - 3) / 10)"
    by (intro pulse_abs_diff_sum_far) auto
  have c: "abs_diff_sum (pulse_block 1024) 1024 (int 1024) = Num ((real 1024 - 3) / 10)"
    by (intro pulse_abs_diff_sum_far) auto
  have s0: "shift_sum (pulse_block 1024) 1024 1023 0 = shift_sum_prev (pulse_block 1024) 1024 1023 0"
    using a b by (simp add: shift_sum_def shift_sum_prev_def)
  have s1: "shift_sum (pulse_block 1024) 1024 1023 1 = shift_sum_prev (pulse_block 1024) 1024 1023 1"
    using b c by (simp add: shift_sum_def shift_sum_prev_def)
  have o: "buf_at (pulse_block 1024) (1023 + 1023 + 2) = NaN"
    by (simp add: buf_at_def length_pulse_block)
  have s2: "shift_sum (pulse_block 1024) 1024 1023 2 = NaN"
    unfolding shift_sum_def by (intro abs_diff_sum_past) (simp_all add: length_pulse_block)
  show ?thesis using l e s0 s1 o s2 loop r by simp
qed

end
